theory Spec2Isabelle
  imports Complex_Main "HOL-Library.AList" "HOL-Library.Char_ord" "HOL-Library.List_Lexorder"
    "HOL-Library.Multiset" "HOL-Library.Log_Nat"
begin

section \<open>Data model\<close>

text \<open>
  An item is a whitespace-separated token of a dataset row, a Python \<open>str\<close>. Python orders
  strings lexicographically by code point; \<open>string\<close> with the lexicographic order on lists
  and the order of characters by their code is the same order on ASCII tokens.

  The dictionaries of the program are keyed by a bare item at level 1 and by a tuple of
  items at every later level; both shapes live in the same dictionary
  \<open>all_frequent_itemsets\<close>, and a one-element tuple is a different key from the bare item.
\<close>

type_synonym item = string

datatype key = Item item | Tup "item list"

text \<open>
  A Python \<open>dict\<close> keeps its entries in insertion order, each key once: an association
  list whose keys are distinct. \<open>d[k] = v\<close> is \<open>AList.update k v d\<close> (the entry of an
  existing key is replaced where it stands, a new key is appended), \<open>k in d\<close> and
  \<open>d[k]\<close> are \<open>map_of d k\<close>.
\<close>

type_synonym dict = "(key \<times> int) list"

definition wf_dict :: "dict \<Rightarrow> bool" where
  "wf_dict d = distinct (map fst d)"

datatype py_error = KeyError | IndexError | ZeroDivisionError | OverflowError

text \<open>
  The counting idiom of both counters:
  \<^verbatim>\<open>if x in c: c[x] += 1
else: c[x] = 1\<close>
\<close>

definition increment :: "dict \<Rightarrow> key \<Rightarrow> dict" where
  "increment c x =
     (case map_of c x of
        Some n \<Rightarrow> AList.update x (n + 1) c
      | None \<Rightarrow> AList.update x 1 c)"

text \<open>\<open>{**a, **b}\<close>: the entries of \<open>a\<close>, then every entry of \<open>b\<close> stored in turn.\<close>

definition dict_merge :: "dict \<Rightarrow> dict \<Rightarrow> dict" where
  "dict_merge a b = fold (\<lambda>(k, v) d. AList.update k v d) b a"

section \<open>Level-1 counter\<close>

text \<open>
  \<open>generate_all_single_candidates\<close> reads the fixed file \<open>T10I4D100K.dat\<close>; the model takes
  the file as the list of its rows, each already split into tokens (\<open>row_list\<close>). The inner
  loop runs over \<open>row_list\<close>, the list of tokens, and the basket appended is
  \<open>set(row_list)\<close>.
\<close>

definition generate_all_single_candidates :: "item list list \<Rightarrow> dict \<times> item set list" where
  "generate_all_single_candidates rows =
     fold (\<lambda>row_list (c_1, all_baskets).
             (fold (\<lambda>item c. increment c (Item item)) row_list c_1,
              all_baskets @ [set row_list]))
          rows ([], [])"

section \<open>Support filter\<close>

definition filter_candidates :: "dict \<Rightarrow> int \<Rightarrow> dict" where
  "filter_candidates c_k support =
     fold (\<lambda>(item, total_count) l_k.
             if total_count > support then AList.update item total_count l_k else l_k)
          c_k []"

section \<open>Candidate generator\<close>

text \<open>
  \<open>itertools.combinations(xs, k)\<close>: the subsequences of \<open>xs\<close> of length \<open>k\<close>, in the
  lexicographic order of their positions.
\<close>

fun combinations :: "'a list \<Rightarrow> nat \<Rightarrow> 'a list list" where
  "combinations xs 0 = [[]]"
| "combinations [] (Suc k) = []"
| "combinations (x # xs) (Suc k) = map ((#) x) (combinations xs k) @ combinations xs (Suc k)"

text \<open>
  \<open>set(l_1.keys()) & basket\<close> intersects the keys of \<open>l_1\<close> with the tokens of the basket.
  A tuple is never equal to a token, so only the bare-item keys take part.
\<close>

fun bare_items :: "key list \<Rightarrow> item list" where
  "bare_items [] = []"
| "bare_items (Item a # ks) = a # bare_items ks"
| "bare_items (Tup t # ks) = bare_items ks"

definition generate_next_candidates :: "item set list \<Rightarrow> dict \<Rightarrow> nat \<Rightarrow> dict" where
  "generate_next_candidates all_baskets l_1 k =
     (let l_1_set = set (bare_items (map fst l_1)) in
      fold (\<lambda>basket c_k.
              let frequent_items = sorted_list_of_set (l_1_set \<inter> basket);
                  current_candidates = combinations frequent_items k
              in fold (\<lambda>tup c_k.
                         if set tup \<subseteq> basket then increment c_k (Tup tup) else c_k)
                      current_candidates c_k)
           all_baskets [])"

text \<open>The generator as the specification describes it once the subset test is dropped.\<close>

definition generate_next_candidates_nocheck :: "item set list \<Rightarrow> dict \<Rightarrow> nat \<Rightarrow> dict" where
  "generate_next_candidates_nocheck all_baskets l_1 k =
     (let l_1_set = set (bare_items (map fst l_1)) in
      fold (\<lambda>basket c_k.
              let frequent_items = sorted_list_of_set (l_1_set \<inter> basket);
                  current_candidates = combinations frequent_items k
              in fold (\<lambda>tup c_k. increment c_k (Tup tup)) current_candidates c_k)
           all_baskets [])"

section \<open>Apriori driver\<close>

text \<open>
  The \<open>while\<close> loop of \<open>apriori\<close>, with the variables it updates as arguments:
  \<open>all_frequent_itemsets\<close>, \<open>all_itemsets_greater_than_1\<close>, \<open>l_k\<close> and \<open>k\<close>. The loop returns
  the two accumulators and the value of \<open>k\<close> at exit. The \<open>print\<close> calls are left out.
\<close>

function apriori_loop ::
  "item set list \<Rightarrow> int \<Rightarrow> dict \<Rightarrow> dict \<Rightarrow> dict \<Rightarrow> dict \<Rightarrow> nat \<Rightarrow> dict \<times> dict \<times> nat" where
  "apriori_loop all_baskets support l_1 all_frequent_itemsets all_itemsets_greater_than_1 l_k k =
     (if length l_k \<noteq> 0 then
        (let c_k = generate_next_candidates all_baskets l_1 k;
             l_k' = filter_candidates c_k support
         in apriori_loop all_baskets support l_1
              (dict_merge all_frequent_itemsets l_k')
              (dict_merge all_itemsets_greater_than_1 l_k')
              l_k' (k + 1))
      else (all_frequent_itemsets, all_itemsets_greater_than_1, k))"
  by pat_completeness auto

definition apriori :: "item set list \<Rightarrow> int \<Rightarrow> dict \<Rightarrow> dict \<times> dict" where
  "apriori all_baskets support c_1 =
     (let l_1 = filter_candidates c_1 support;
          (all_frequent_itemsets, all_itemsets_greater_than_1, k) =
             apriori_loop all_baskets support l_1 l_1 [] l_1 2
      in (all_frequent_itemsets, all_itemsets_greater_than_1))"

section \<open>Rule miner\<close>

text \<open>
  \<open>len(freq_itemset)\<close> and \<open>combinations(freq_itemset, i)\<close> run over the elements of the key:
  the items of a tuple, the one-character strings of a bare string.
\<close>

fun key_elems :: "key \<Rightarrow> item list" where
  "key_elems (Tup t) = t"
| "key_elems (Item s) = map (\<lambda>c. [c]) s"

text \<open>
  A rule is the tuple \<open>(curr_item, "->", remaining_items, support, conf)\<close>. Python's \<open>/\<close> on
  two integers is true division and yields a double. A double is taken as the rational
  number it denotes, and so is the threshold. The rule miner is given twice: here with
  the exact quotient (\<open>true_div\<close>), the confidence of the specification's data model, and
  below (\<open>generate_association_rules_with\<close>) with the division as a parameter, whose
  instance \<open>py_true_div\<close> rounds the quotient to a double as Python does. Where a
  statement depends on the rounding, it is made about the second.
\<close>

type_synonym rule = "item set \<times> string \<times> item set \<times> int \<times> rat"

definition lookup :: "dict \<Rightarrow> key \<Rightarrow> py_error + int" where
  "lookup d x = (case map_of d x of None \<Rightarrow> Inl KeyError | Some v \<Rightarrow> Inr v)"

definition true_div :: "int \<Rightarrow> int \<Rightarrow> py_error + rat" where
  "true_div a b = (if b = 0 then Inl ZeroDivisionError else Inr (of_int a / of_int b))"

text \<open>
  \<^verbatim>\<open>if len(item) > 1: conf = support / all_frequent_itemsets[item]
else: conf = support / all_frequent_itemsets[item[0]]\<close>
\<close>

definition rule_conf :: "dict \<Rightarrow> item list \<Rightarrow> int \<Rightarrow> py_error + rat" where
  "rule_conf all_frequent_itemsets item support =
     (if length item > 1 then
        (case lookup all_frequent_itemsets (Tup item) of
           Inl e \<Rightarrow> Inl e
         | Inr d \<Rightarrow> true_div support d)
      else
        (case item of
           [] \<Rightarrow> Inl IndexError
         | a # _ \<Rightarrow>
             (case lookup all_frequent_itemsets (Item a) of
                Inl e \<Rightarrow> Inl e
              | Inr d \<Rightarrow> true_div support d)))"

text \<open>A loop whose body may raise: the first error ends it.\<close>

fun fold_err :: "('a \<Rightarrow> 's \<Rightarrow> py_error + 's) \<Rightarrow> 'a list \<Rightarrow> 's \<Rightarrow> py_error + 's" where
  "fold_err f [] s = Inr s"
| "fold_err f (x # xs) s = (case f x s of Inl e \<Rightarrow> Inl e | Inr s' \<Rightarrow> fold_err f xs s')"

definition rule_step ::
  "dict \<Rightarrow> item list \<Rightarrow> int \<Rightarrow> rat \<Rightarrow> item list \<Rightarrow> rule list \<Rightarrow> py_error + rule list" where
  "rule_step all_frequent_itemsets freq_itemset support conf_threshold item association_rules =
     (let curr_item = set item;
          remaining_items = set freq_itemset - curr_item
      in case rule_conf all_frequent_itemsets item support of
           Inl e \<Rightarrow> Inl e
         | Inr conf \<Rightarrow>
             Inr (if conf > conf_threshold
                  then association_rules @ [(curr_item, ''->'', remaining_items, support, conf)]
                  else association_rules))"

definition generate_association_rules :: "dict \<Rightarrow> dict \<Rightarrow> rat \<Rightarrow> py_error + rule list" where
  "generate_association_rules all_frequent_itemsets all_itemsets_greater_than_1 conf_threshold =
     fold_err (\<lambda>(freq_itemset, support).
        fold_err (\<lambda>i.
           fold_err (rule_step all_frequent_itemsets (key_elems freq_itemset) support conf_threshold)
                    (combinations (key_elems freq_itemset) i))
          [1 ..< length (key_elems freq_itemset)])
       all_itemsets_greater_than_1 []"

section \<open>The program\<close>


section \<open>The rule miner on doubles\<close>

text \<open>
  The same three loops, with the division \<open>support / all_frequent_itemsets[...]\<close> as the
  parameter \<open>tdiv\<close>.
\<close>

definition rule_conf_with ::
  "(int \<Rightarrow> int \<Rightarrow> py_error + rat) \<Rightarrow> dict \<Rightarrow> item list \<Rightarrow> int \<Rightarrow> py_error + rat" where
  "rule_conf_with tdiv all_frequent_itemsets item support =
     (if length item > 1 then
        (case lookup all_frequent_itemsets (Tup item) of
           Inl e \<Rightarrow> Inl e
         | Inr d \<Rightarrow> tdiv support d)
      else
        (case item of
           [] \<Rightarrow> Inl IndexError
         | a # _ \<Rightarrow>
             (case lookup all_frequent_itemsets (Item a) of
                Inl e \<Rightarrow> Inl e
              | Inr d \<Rightarrow> tdiv support d)))"

definition rule_step_with ::
  "(int \<Rightarrow> int \<Rightarrow> py_error + rat) \<Rightarrow> dict \<Rightarrow> item list \<Rightarrow> int \<Rightarrow> rat \<Rightarrow> item list \<Rightarrow> rule list
     \<Rightarrow> py_error + rule list" where
  "rule_step_with tdiv all_frequent_itemsets freq_itemset support conf_threshold item
       association_rules =
     (let curr_item = set item;
          remaining_items = set freq_itemset - curr_item
      in case rule_conf_with tdiv all_frequent_itemsets item support of
           Inl e \<Rightarrow> Inl e
         | Inr conf \<Rightarrow>
             Inr (if conf > conf_threshold
                  then association_rules @ [(curr_item, ''->'', remaining_items, support, conf)]
                  else association_rules))"

definition generate_association_rules_with ::
  "(int \<Rightarrow> int \<Rightarrow> py_error + rat) \<Rightarrow> dict \<Rightarrow> dict \<Rightarrow> rat \<Rightarrow> py_error + rule list" where
  "generate_association_rules_with tdiv all_frequent_itemsets all_itemsets_greater_than_1
       conf_threshold =
     fold_err (\<lambda>(freq_itemset, support).
        fold_err (\<lambda>i.
           fold_err (rule_step_with tdiv all_frequent_itemsets (key_elems freq_itemset) support
                       conf_threshold)
                    (combinations (key_elems freq_itemset) i))
          [1 ..< length (key_elems freq_itemset)])
       all_itemsets_greater_than_1 []"






section \<open>Notions of the specification\<close>

text \<open>
  The support count of an itemset: the number of baskets that contain all of its items.
\<close>

definition support_count :: "item set list \<Rightarrow> item list \<Rightarrow> int" where
  "support_count all_baskets t = int (length (filter (\<lambda>basket. set t \<subseteq> basket) all_baskets))"

text \<open>The frequent table of level \<open>k\<close>, as the loop of \<open>apriori\<close> computes it.\<close>

definition level :: "item set list \<Rightarrow> int \<Rightarrow> dict \<Rightarrow> nat \<Rightarrow> dict" where
  "level all_baskets support l_1 k =
     filter_candidates (generate_next_candidates all_baskets l_1 k) support"

text \<open>The combinations one basket proposes at level \<open>k\<close>.\<close>

definition candidates_of :: "dict \<Rightarrow> nat \<Rightarrow> item set \<Rightarrow> item list list" where
  "candidates_of l_1 k basket =
     combinations (sorted_list_of_set (set (bare_items (map fst l_1)) \<inter> basket)) k"

text \<open>
  The entries the loop of \<open>apriori\<close> merges while \<open>k\<close> runs from \<open>k\<close> to \<open>K - 1\<close>: the frequent
  tables of these levels. A key of level \<open>j\<close> is a tuple of length \<open>j\<close>, so the levels do not share keys.
\<close>

definition levels_map :: "item set list \<Rightarrow> int \<Rightarrow> dict \<Rightarrow> nat \<Rightarrow> nat \<Rightarrow> key \<Rightarrow> int option" where
  "levels_map all_baskets support l_1 k K x =
     (if k \<le> length (key_elems x) \<and> length (key_elems x) < K
      then map_of (level all_baskets support l_1 (length (key_elems x))) x else None)"

text \<open>
  The key under which the rule miner looks up a non-empty antecedent: the bare item for a
  one-element tuple (\<open>item[0]\<close>), the tuple itself otherwise.
\<close>

fun antecedent_key :: "item list \<Rightarrow> key" where
  "antecedent_key [a] = Item a"
| "antecedent_key item = Tup item"

text \<open>The confidence the rule miner computes for an antecedent, where it computes one.\<close>

definition conf_of :: "dict \<Rightarrow> item list \<Rightarrow> int \<Rightarrow> rat" where
  "conf_of all_frequent_itemsets item support =
     (case rule_conf all_frequent_itemsets item support of Inr conf \<Rightarrow> conf | Inl e \<Rightarrow> 0)"

text \<open>What one antecedent adds to the rule list, and what one frequent itemset adds.\<close>

definition emitted :: "dict \<Rightarrow> rat \<Rightarrow> item list \<Rightarrow> int \<Rightarrow> item list \<Rightarrow> rule list" where
  "emitted all_frequent_itemsets conf_threshold freq_itemset support item =
     (if conf_of all_frequent_itemsets item support > conf_threshold
      then [(set item, ''->'', set freq_itemset - set item, support,
             conf_of all_frequent_itemsets item support)]
      else [])"

definition rules_of :: "dict \<Rightarrow> rat \<Rightarrow> key \<times> int \<Rightarrow> rule list" where
  "rules_of all_frequent_itemsets conf_threshold =
     (\<lambda>(freq_itemset, support).
        concat (map (\<lambda>i. concat (map (emitted all_frequent_itemsets conf_threshold
                                        (key_elems freq_itemset) support)
                                   (combinations (key_elems freq_itemset) i)))
                    [1 ..< length (key_elems freq_itemset)]))"




section \<open>Dictionaries\<close>

text \<open>The count a dictionary has for a key, 0 for a key it does not hold.\<close>

definition cnt :: "dict \<Rightarrow> key \<Rightarrow> int" where
  "cnt d x = (case map_of d x of Some n \<Rightarrow> n | None \<Rightarrow> 0)"

lemma map_of_increment: "map_of (increment c x) = (map_of c)(x \<mapsto> cnt c x + 1)"
  by (simp add: increment_def cnt_def update_conv' split: option.splits)

lemma wf_increment: "wf_dict c \<Longrightarrow> wf_dict (increment c x)"
  by (simp add: increment_def wf_dict_def distinct_update split: option.splits)

lemma cnt_increment: "cnt (increment c x) y = (if y = x then cnt c x + 1 else cnt c y)"
  by (simp add: cnt_def map_of_increment)

lemma cnt_fold_increment:
  "cnt (fold (\<lambda>x c. increment c x) xs c) y = cnt c y + int (count_list xs y)"
  by (induction xs arbitrary: c) (simp_all add: cnt_increment)

lemma map_of_fold_increment:
  "map_of (fold (\<lambda>x c. increment c x) xs c) y =
     (if y \<in> set xs then Some (cnt c y + int (count_list xs y)) else map_of c y)"
proof (induction xs arbitrary: c)
  case Nil
  then show ?case by simp
next
  case (Cons x xs)
  show ?case
    by (simp add: Cons.IH map_of_increment cnt_increment)
qed

lemma wf_fold_increment: "wf_dict c \<Longrightarrow> wf_dict (fold (\<lambda>x c. increment c x) xs c)"
  by (induction xs arbitrary: c) (simp_all add: wf_increment)

lemma update_fresh: "k \<notin> fst ` set d \<Longrightarrow> AList.update k v d = d @ [(k, v)]"
  by (induction d) auto

lemma map_of_dict_merge:
  "wf_dict b \<Longrightarrow> map_of (dict_merge a b) x = (map_of a ++ map_of b) x"
proof (induction b arbitrary: a)
  case Nil
  then show ?case by (simp add: dict_merge_def)
next
  case (Cons p b)
  obtain k v where p: "p = (k, v)" by (cases p)
  from Cons.prems have wf: "wf_dict b" and fresh: "k \<notin> fst ` set b"
    by (auto simp: wf_dict_def p)
  have "map_of (dict_merge a (p # b)) x = map_of (dict_merge (AList.update k v a) b) x"
    by (simp add: dict_merge_def p)
  also have "\<dots> = (map_of (AList.update k v a) ++ map_of b) x"
    by (rule Cons.IH [OF wf])
  also have "\<dots> = (map_of a ++ map_of (p # b)) x"
  proof -
    from fresh have "map_of b k = None"
      by (simp add: map_of_eq_None_iff)
    then show ?thesis
      by (auto simp: p map_add_def update_conv split: option.splits)
  qed
  finally show ?case .
qed

lemma wf_dict_merge: "wf_dict a \<Longrightarrow> wf_dict (dict_merge a b)"
  unfolding dict_merge_def
  by (induction b arbitrary: a) (auto simp: wf_dict_def distinct_update)

lemma filter_candidates_fold:
  "distinct (map fst c) \<Longrightarrow> fst ` set c \<inter> fst ` set acc = {} \<Longrightarrow>
   fold (\<lambda>(item, total_count) l_k.
           if total_count > support then AList.update item total_count l_k else l_k) c acc
   = acc @ filter (\<lambda>(item, total_count). total_count > support) c"
proof (induction c arbitrary: acc)
  case Nil
  then show ?case by simp
next
  case (Cons p c)
  obtain k v where p: "p = (k, v)" by (cases p)
  from Cons.prems have d: "distinct (map fst c)" and k1: "k \<notin> fst ` set c" and k2: "k \<notin> fst ` set acc"
    and dj: "fst ` set c \<inter> fst ` set acc = {}"
    by (auto simp: p)
  show ?case
  proof (cases "v > support")
    case True
    have dj': "fst ` set c \<inter> fst ` set (acc @ [(k, v)]) = {}"
      using dj k1 by auto
    show ?thesis
      using True by (simp add: p update_fresh [OF k2] Cons.IH [OF d dj'])
  next
    case False
    then show ?thesis by (simp add: p Cons.IH [OF d dj])
  qed
qed

lemma filter_candidates_filter:
  "wf_dict c_k \<Longrightarrow>
   filter_candidates c_k support = filter (\<lambda>(item, total_count). total_count > support) c_k"
  unfolding filter_candidates_def wf_dict_def
  using filter_candidates_fold [of c_k "[]" support] by simp

lemma wf_filter_candidates: "wf_dict c_k \<Longrightarrow> wf_dict (filter_candidates c_k support)"
  by (simp add: filter_candidates_filter) (simp add: wf_dict_def distinct_map_filter)

lemma map_of_filter_candidates:
  "wf_dict c_k \<Longrightarrow>
   map_of (filter_candidates c_k support) x =
     (case map_of c_k x of None \<Rightarrow> None | Some n \<Rightarrow> if n > support then Some n else None)"
proof -
  assume wf: "wf_dict c_k"
  have "map_of (filter (\<lambda>(item, total_count). total_count > support) c_k) x =
     (case map_of c_k x of None \<Rightarrow> None | Some n \<Rightarrow> if n > support then Some n else None)"
    using wf unfolding wf_dict_def
  proof (induction c_k)
    case Nil
    then show ?case by simp
  next
    case (Cons p c)
    then show ?case
      by (cases p) (auto split: option.splits simp: map_of_eq_None_iff image_iff)
  qed
  then show ?thesis by (simp add: filter_candidates_filter [OF wf])
qed


lemma length_combinations: "ys \<in> set (combinations xs k) \<Longrightarrow> length ys = k"
  by (induction xs k arbitrary: ys rule: combinations.induct) auto

lemma set_combinations: "ys \<in> set (combinations xs k) \<Longrightarrow> set ys \<subseteq> set xs"
  by (induction xs k arbitrary: ys rule: combinations.induct) fastforce+

lemma distinct_combinations: "distinct xs \<Longrightarrow> distinct (combinations xs k)"
proof (induction xs k rule: combinations.induct)
  case (3 x xs k)
  have "x \<notin> set ys" if "ys \<in> set (combinations xs (Suc k))" for ys
    using set_combinations [OF that] "3.prems" by auto
  then have "set (map ((#) x) (combinations xs k)) \<inter> set (combinations xs (Suc k)) = {}"
    by fastforce
  then show ?case
    using 3 by (simp add: distinct_map)
qed simp_all

lemma in_combinations:
  "sorted_wrt (<) xs \<Longrightarrow>
   ys \<in> set (combinations xs k) \<longleftrightarrow>
     length ys = k \<and> sorted_wrt (<) ys \<and> set ys \<subseteq> set (xs :: 'a :: linorder list)"
proof (induction xs k arbitrary: ys rule: combinations.induct)
  case (1 xs)
  then show ?case by auto
next
  case (2 k)
  then show ?case by auto
next
  case (3 x xs k)
  from "3.prems" have sx: "sorted_wrt (<) xs" and lt: "\<forall>y\<in>set xs. x < y"
    by auto
  note IH1 = "3.IH"(1) [OF sx] and IH2 = "3.IH"(2) [OF sx]
  show ?case
  proof
    assume "ys \<in> set (combinations (x # xs) (Suc k))"
    then consider zs where "ys = x # zs" "zs \<in> set (combinations xs k)"
      | "ys \<in> set (combinations xs (Suc k))"
      by auto
    then show "length ys = Suc k \<and> sorted_wrt (<) ys \<and> set ys \<subseteq> set (x # xs)"
    proof cases
      case 1
      then show ?thesis using IH1 [of zs] lt by auto
    next
      case 2
      then show ?thesis using IH2 [of ys] by auto
    qed
  next
    assume a: "length ys = Suc k \<and> sorted_wrt (<) ys \<and> set ys \<subseteq> set (x # xs)"
    then obtain y zs where ys: "ys = y # zs"
      by (cases ys) auto
    from a ys have zs: "length zs = k" "sorted_wrt (<) zs" "\<forall>z\<in>set zs. y < z"
      "y = x \<or> y \<in> set xs" "set zs \<subseteq> insert x (set xs)"
      by auto
    show "ys \<in> set (combinations (x # xs) (Suc k))"
    proof (cases "y = x")
      case True
      with zs have "set zs \<subseteq> set xs" by auto
      with zs have "zs \<in> set (combinations xs k)" using IH1 [of zs] by simp
      then show ?thesis using True ys by simp
    next
      case False
      with zs lt have "x < y" by auto
      with zs have "x \<notin> set zs" by auto
      with zs False have "set ys \<subseteq> set xs" using ys by auto
      with a have "ys \<in> set (combinations xs (Suc k))" using IH2 [of ys] by simp
      then show ?thesis by simp
    qed
  qed
qed


lemma in_bare_items: "a \<in> set (bare_items ks) \<longleftrightarrow> Item a \<in> set ks"
  by (induction ks rule: bare_items.induct) auto

lemma in_candidates_of:
  "t \<in> set (candidates_of l_1 k b) \<longleftrightarrow>
     length t = k \<and> sorted_wrt (<) t \<and> set t \<subseteq> set (bare_items (map fst l_1)) \<and> set t \<subseteq> b"
proof -
  let ?A = "set (bare_items (map fst l_1)) \<inter> b"
  have fin: "finite ?A" by simp
  have "sorted_wrt (<) (sorted_list_of_set ?A)" by simp
  from in_combinations [OF this, of t k] show ?thesis
    using fin by (auto simp: candidates_of_def)
qed

lemma distinct_candidates_of: "distinct (candidates_of l_1 k b)"
  by (simp add: candidates_of_def distinct_combinations)

lemma fold_checked:
  "\<forall>t\<in>set ts. set t \<subseteq> basket \<Longrightarrow>
   fold (\<lambda>tup c_k. if set tup \<subseteq> basket then increment c_k (Tup tup) else c_k) ts c
   = fold (\<lambda>x c. increment c x) (map Tup ts) c"
  by (induction ts arbitrary: c) simp_all

lemma fold_unchecked:
  "fold (\<lambda>tup c_k. increment c_k (Tup tup)) ts c = fold (\<lambda>x c. increment c x) (map Tup ts) c"
  by (induction ts arbitrary: c) simp_all

lemma fold_baskets:
  "fold (\<lambda>b c. fold (\<lambda>x c. increment c x) (g b) c) bs c
   = fold (\<lambda>x c. increment c x) (concat (map g bs)) c"
  by (induction bs arbitrary: c) simp_all

lemma generate_next_candidates_fold:
  "generate_next_candidates all_baskets l_1 k =
     fold (\<lambda>x c. increment c x) (concat (map (\<lambda>b. map Tup (candidates_of l_1 k b)) all_baskets)) []"
proof -
  have "fold (\<lambda>tup c_k. if set tup \<subseteq> b then increment c_k (Tup tup) else c_k)
          (candidates_of l_1 k b)
        = fold (\<lambda>x c. increment c x) (map Tup (candidates_of l_1 k b))" for b
    by (rule ext, rule fold_checked) (simp add: in_candidates_of)
  then show ?thesis
    by (simp add: generate_next_candidates_def candidates_of_def fold_baskets)
qed

lemma generate_next_candidates_nocheck_fold:
  "generate_next_candidates_nocheck all_baskets l_1 k =
     fold (\<lambda>x c. increment c x) (concat (map (\<lambda>b. map Tup (candidates_of l_1 k b)) all_baskets)) []"
proof -
  have "fold (\<lambda>tup c_k. increment c_k (Tup tup)) (candidates_of l_1 k b)
        = fold (\<lambda>x c. increment c x) (map Tup (candidates_of l_1 k b))" for b
    by (rule ext, rule fold_unchecked)
  then show ?thesis
    by (simp add: generate_next_candidates_nocheck_def candidates_of_def fold_baskets)
qed

lemma count_list_distinct: "distinct xs \<Longrightarrow> count_list xs y = (if y \<in> set xs then 1 else 0)"
  by (induction xs) auto

lemma count_list_concat:
  "\<forall>b\<in>set bs. distinct (g b) \<Longrightarrow>
   count_list (concat (map g bs)) y = length (filter (\<lambda>b. y \<in> set (g b)) bs)"
  by (induction bs) (simp_all add: count_list_distinct)

lemma map_of_generate_next_candidates_Tup:
  "map_of (generate_next_candidates all_baskets l_1 k) (Tup t) =
     (if length t = k \<and> sorted_wrt (<) t \<and> set t \<subseteq> set (bare_items (map fst l_1)) \<and>
         (\<exists>basket\<in>set all_baskets. set t \<subseteq> basket)
      then Some (support_count all_baskets t) else None)"
proof -
  let ?g = "\<lambda>b. map Tup (candidates_of l_1 k b)"
  let ?Q = "length t = k \<and> sorted_wrt (<) t \<and> set t \<subseteq> set (bare_items (map fst l_1))"
  have mem: "Tup t \<in> set (?g b) \<longleftrightarrow> ?Q \<and> set t \<subseteq> b" for b
    by (auto simp: in_candidates_of)
  have d: "\<forall>b\<in>set all_baskets. distinct (?g b)"
    by (simp add: distinct_map distinct_candidates_of inj_on_def)
  have "count_list (concat (map ?g all_baskets)) (Tup t)
        = length (filter (\<lambda>b. ?Q \<and> set t \<subseteq> b) all_baskets)"
    unfolding count_list_concat [OF d] mem ..
  moreover have "Tup t \<in> set (concat (map ?g all_baskets)) \<longleftrightarrow>
      ?Q \<and> (\<exists>b\<in>set all_baskets. set t \<subseteq> b)"
    using mem by auto
  ultimately show ?thesis
    unfolding generate_next_candidates_fold map_of_fold_increment
    by (auto simp: cnt_def support_count_def)
qed

lemma map_of_generate_next_candidates_Item:
  "map_of (generate_next_candidates all_baskets l_1 k) (Item a) = None"
  unfolding generate_next_candidates_fold map_of_fold_increment by auto

lemma wf_generate_next_candidates: "wf_dict (generate_next_candidates all_baskets l_1 k)"
  unfolding generate_next_candidates_fold
  by (rule wf_fold_increment) (simp add: wf_dict_def)

section \<open>Levels and termination of the driver\<close>

lemma length_bare_items: "length (bare_items ks) \<le> length ks"
  by (induction ks rule: bare_items.induct) auto

lemma map_of_level:
  "map_of (level all_baskets support l_1 k) x = Some n \<longleftrightarrow>
     (\<exists>t. x = Tup t \<and> length t = k \<and> sorted_wrt (<) t \<and>
          set t \<subseteq> set (bare_items (map fst l_1)) \<and>
          (\<exists>basket\<in>set all_baskets. set t \<subseteq> basket) \<and>
          n = support_count all_baskets t \<and> n > support)"
proof (cases x)
  case (Item a)
  then show ?thesis
    by (simp add: level_def map_of_filter_candidates wf_generate_next_candidates
        map_of_generate_next_candidates_Item)
next
  case (Tup t)
  then show ?thesis
    by (auto simp: level_def map_of_filter_candidates wf_generate_next_candidates
        map_of_generate_next_candidates_Tup)
qed

lemma wf_level: "wf_dict (level all_baskets support l_1 k)"
  by (simp add: level_def wf_filter_candidates wf_generate_next_candidates)

lemma level_nonempty:
  assumes "level all_baskets support l_1 k \<noteq> []"
  obtains t n where "map_of (level all_baskets support l_1 k) (Tup t) = Some n"
    "length t = k" "sorted_wrt (<) t" "set t \<subseteq> set (bare_items (map fst l_1))"
    "\<exists>basket\<in>set all_baskets. set t \<subseteq> basket"
proof -
  from assms obtain x n where "(x, n) \<in> set (level all_baskets support l_1 k)"
    by (cases "level all_baskets support l_1 k") auto
  then have "map_of (level all_baskets support l_1 k) x = Some n"
    using wf_level [of all_baskets support l_1 k] by (simp add: wf_dict_def)
  then show ?thesis
    using that by (auto simp: map_of_level)
qed

lemma level_bound_l_1:
  assumes "level all_baskets support l_1 k \<noteq> []"
  shows "k \<le> length l_1"
proof -
  from assms obtain t where t: "length t = k" "sorted_wrt (<) t"
    "set t \<subseteq> set (bare_items (map fst l_1))"
    by (rule level_nonempty)
  from t(2) have "distinct t" by (simp add: strict_sorted_iff)
  then have "k = card (set t)" using t(1) by (simp add: distinct_card)
  also have "\<dots> \<le> card (set (bare_items (map fst l_1)))"
    using t(3) by (simp add: card_mono)
  also have "\<dots> \<le> length (bare_items (map fst l_1))" by (rule card_length)
  also have "\<dots> \<le> length l_1" using length_bare_items [of "map fst l_1"] by simp
  finally show ?thesis .
qed

termination apriori_loop
proof (relation "measure (\<lambda>(all_baskets, support, l_1, af, ag, l_k, k).
          if l_k = [] then 0 else 1 + (length l_1 + 1 - k))")
  show "wf (measure (\<lambda>(all_baskets, support, l_1, af, ag, l_k, k).
          if l_k = [] then 0 else 1 + (length l_1 + 1 - k)))"
    by simp
next
  fix all_baskets :: "item set list" and support :: int
    and l_1 all_frequent_itemsets all_itemsets_greater_than_1 l_k :: dict
    and k :: nat and x xa
  assume ne: "length l_k \<noteq> 0"
    and x: "x = generate_next_candidates all_baskets l_1 k"
    and xa: "xa = filter_candidates x support"
  have "xa \<noteq> [] \<Longrightarrow> k \<le> length l_1"
    using level_bound_l_1 [of all_baskets support l_1 k] by (simp add: level_def x xa)
  then show "((all_baskets, support, l_1, dict_merge all_frequent_itemsets xa,
       dict_merge all_itemsets_greater_than_1 xa, xa, k + 1),
      all_baskets, support, l_1, all_frequent_itemsets, all_itemsets_greater_than_1, l_k, k)
    \<in> measure (\<lambda>(all_baskets, support, l_1, af, ag, l_k, k).
          if l_k = [] then 0 else 1 + (length l_1 + 1 - k))"
    using ne by auto
qed

declare apriori_loop.simps [simp del]

section \<open>The result of the driver\<close>

lemma level_key_length:
  "map_of (level all_baskets support l_1 k) x = Some n \<Longrightarrow> length (key_elems x) = k"
  by (auto simp: map_of_level)

lemma level_key_other:
  "length (key_elems x) \<noteq> k \<Longrightarrow> map_of (level all_baskets support l_1 k) x = None"
  using level_key_length [of all_baskets support l_1 k x] by (cases "map_of (level all_baskets support l_1 k) x") auto

lemma levels_map_empty: "levels_map all_baskets support l_1 k k x = None"
  by (auto simp: levels_map_def)

lemma merge_level:
  assumes "k < K"
  shows "(map_of (dict_merge d (level bs s l_1 k)) ++ levels_map bs s l_1 (k + 1) K) x
         = (map_of d ++ levels_map bs s l_1 k K) x"
proof (cases "length (key_elems x) = k")
  case True
  then have "levels_map bs s l_1 (k + 1) K x = None"
    and "levels_map bs s l_1 k K x = map_of (level bs s l_1 k) x"
    using assms by (simp_all add: levels_map_def)
  then show ?thesis
    by (simp add: map_add_def map_of_dict_merge [OF wf_level])
next
  case False
  then have "map_of (level bs s l_1 k) x = None"
    by (rule level_key_other)
  moreover have "levels_map bs s l_1 (k + 1) K x = levels_map bs s l_1 k K x"
    using False by (auto simp: levels_map_def)
  ultimately show ?thesis
    by (simp add: map_add_def map_of_dict_merge [OF wf_level] split: option.split)
qed

lemma apriori_loop_result:
  "apriori_loop bs s l_1 af ag l_k k = (af', ag', K) \<Longrightarrow>
   k \<le> K \<and> (l_k = [] \<longrightarrow> K = k \<and> af' = af \<and> ag' = ag) \<and>
   (l_k \<noteq> [] \<longrightarrow> k < K \<and> level bs s l_1 (K - 1) = [] \<and>
       (\<forall>j. k \<le> j \<and> j < K - 1 \<longrightarrow> level bs s l_1 j \<noteq> [])) \<and>
   (\<forall>x. map_of af' x = (map_of af ++ levels_map bs s l_1 k K) x) \<and>
   (\<forall>x. map_of ag' x = (map_of ag ++ levels_map bs s l_1 k K) x) \<and>
   (wf_dict af \<longrightarrow> wf_dict af') \<and> (wf_dict ag \<longrightarrow> wf_dict ag')"
proof (induction bs s l_1 af ag l_k k arbitrary: af' ag' K rule: apriori_loop.induct)
  case (1 bs s l_1 af ag l_k k)
  show ?case
  proof (cases "l_k = []")
    case True
    with "1.prems" have "K = k" "af' = af" "ag' = ag"
      by (simp_all add: apriori_loop.simps [of _ _ _ _ _ "[]"])
    with True show ?thesis
      by (simp add: levels_map_empty map_add_def)
  next
    case False
    let ?l = "level bs s l_1 k"
    from False "1.prems"
    have rec: "apriori_loop bs s l_1 (dict_merge af ?l) (dict_merge ag ?l) ?l (k + 1) = (af', ag', K)"
      by (simp add: apriori_loop.simps [of bs s l_1 af ag l_k k] level_def Let_def)
    from False have ne: "length l_k \<noteq> 0" by simp
    have IH: "k + 1 \<le> K \<and> (?l = [] \<longrightarrow> K = k + 1 \<and> af' = dict_merge af ?l \<and> ag' = dict_merge ag ?l) \<and>
       (?l \<noteq> [] \<longrightarrow> k + 1 < K \<and> level bs s l_1 (K - 1) = [] \<and>
           (\<forall>j. k + 1 \<le> j \<and> j < K - 1 \<longrightarrow> level bs s l_1 j \<noteq> [])) \<and>
       (\<forall>x. map_of af' x = (map_of (dict_merge af ?l) ++ levels_map bs s l_1 (k + 1) K) x) \<and>
       (\<forall>x. map_of ag' x = (map_of (dict_merge ag ?l) ++ levels_map bs s l_1 (k + 1) K) x) \<and>
       (wf_dict (dict_merge af ?l) \<longrightarrow> wf_dict af') \<and> (wf_dict (dict_merge ag ?l) \<longrightarrow> wf_dict ag')"
      using "1.IH" [OF ne refl refl, of af' ag' K] rec by (simp add: level_def)
    then have kK: "k < K" by simp
    have lastlevel: "level bs s l_1 (K - 1) = []"
    proof (cases "?l = []")
      case True
      with IH have "K - 1 = k" by simp
      with True show ?thesis by simp
    next
      case False
      with IH show ?thesis by simp
    qed
    have between: "level bs s l_1 j \<noteq> []" if "k \<le> j" "j < K - 1" for j
    proof (cases "?l = []")
      case True
      with IH have "K - 1 = k" by simp
      with that show ?thesis by simp
    next
      case False
      show ?thesis
      proof (cases "j = k")
        case True
        with False show ?thesis by simp
      next
        case False
        with that have "k + 1 \<le> j" by simp
        with IH \<open>?l \<noteq> []\<close> that show ?thesis by simp
      qed
    qed
    have maps: "map_of af' x = (map_of af ++ levels_map bs s l_1 k K) x"
      "map_of ag' x = (map_of ag ++ levels_map bs s l_1 k K) x" for x
      using IH merge_level [OF kK] by simp_all
    have wfs: "wf_dict af \<longrightarrow> wf_dict af'" "wf_dict ag \<longrightarrow> wf_dict ag'"
      using IH by (simp_all add: wf_dict_merge)
    from False kK lastlevel between maps wfs show ?thesis
      by simp
  qed
qed

lemma in_update: "(x, n) \<in> set (AList.update k v al) \<Longrightarrow> (x, n) = (k, v) \<or> (x, n) \<in> set al"
  by (induction al) (auto split: if_splits)

lemma filter_candidates_inv:
  "wf_dict acc \<Longrightarrow> \<forall>(x, n)\<in>set acc. n > support \<Longrightarrow>
   wf_dict (fold (\<lambda>(item, total_count) l_k.
             if total_count > support then AList.update item total_count l_k else l_k) c acc) \<and>
   (\<forall>(x, n)\<in>set (fold (\<lambda>(item, total_count) l_k.
             if total_count > support then AList.update item total_count l_k else l_k) c acc).
       n > support)"
proof (induction c arbitrary: acc)
  case Nil
  then show ?case by simp
next
  case (Cons p c)
  obtain k v where p: "p = (k, v)" by (cases p)
  show ?case
  proof (cases "v > support")
    case True
    have "wf_dict (AList.update k v acc)"
      using Cons.prems(1) by (simp add: wf_dict_def distinct_update)
    moreover have "\<forall>(x, n)\<in>set (AList.update k v acc). n > support"
      using Cons.prems(2) True in_update [of _ _ k v acc] by fastforce
    ultimately show ?thesis
      using Cons.IH [of "AList.update k v acc"] True by (simp add: p)
  next
    case False
    then show ?thesis
      using Cons.IH [OF Cons.prems] by (simp add: p)
  qed
qed

lemma wf_filter_candidates_any: "wf_dict (filter_candidates c support)"
  using filter_candidates_inv [of "[]" support c] by (simp add: filter_candidates_def wf_dict_def)

lemma filter_candidates_above:
  "(x, n) \<in> set (filter_candidates c support) \<Longrightarrow> n > support"
  using filter_candidates_inv [of "[]" support c] by (auto simp: filter_candidates_def wf_dict_def)

lemma levels_map_Item: "levels_map all_baskets support l_1 k K (Item a) = None"
proof -
  have "map_of (level all_baskets support l_1 j) (Item a) = None" for j
    using map_of_level [of all_baskets support l_1 j "Item a"]
    by (cases "map_of (level all_baskets support l_1 j) (Item a)") auto
  then show ?thesis by (simp add: levels_map_def)
qed

lemma apriori_char:
  assumes "apriori bs s c_1 = (af, ag)"
  shows "\<exists>K. apriori_loop bs s (filter_candidates c_1 s) (filter_candidates c_1 s) []
               (filter_candidates c_1 s) 2 = (af, ag, K) \<and> 2 \<le> K \<and>
     (\<forall>x. map_of af x = (map_of (filter_candidates c_1 s) ++ levels_map bs s (filter_candidates c_1 s) 2 K) x) \<and>
     (\<forall>x. map_of ag x = levels_map bs s (filter_candidates c_1 s) 2 K x) \<and>
     wf_dict af \<and> wf_dict ag \<and>
     (filter_candidates c_1 s = [] \<longrightarrow> K = 2 \<and> af = [] \<and> ag = []) \<and>
     (filter_candidates c_1 s \<noteq> [] \<longrightarrow> 2 < K \<and> level bs s (filter_candidates c_1 s) (K - 1) = [] \<and>
        (\<forall>j. 2 \<le> j \<and> j < K - 1 \<longrightarrow> level bs s (filter_candidates c_1 s) j \<noteq> []))"
proof -
  let ?l = "filter_candidates c_1 s"
  obtain af' ag' K where loop: "apriori_loop bs s ?l ?l [] ?l 2 = (af', ag', K)"
    by (cases "apriori_loop bs s ?l ?l [] ?l 2") auto
  with assms have eq: "af' = af" "ag' = ag"
    by (simp_all add: apriori_def Let_def)
  have wf0: "wf_dict ?l" "wf_dict []"
    by (simp_all add: wf_filter_candidates_any) (simp add: wf_dict_def)
  from apriori_loop_result [OF loop] wf0 loop show ?thesis
    unfolding eq by (intro exI [of _ K]) (simp add: map_add_def)
qed

lemma support_count_mono:
  "set A \<subseteq> set t \<Longrightarrow> support_count bs t \<le> support_count bs A"
  unfolding support_count_def by (induction bs) auto

lemma support_count_pos:
  "\<exists>b\<in>set bs. set t \<subseteq> b \<Longrightarrow> 1 \<le> support_count bs t"
  unfolding support_count_def by (induction bs) auto

section \<open>Antecedents of a frequent itemset\<close>

lemma rule_conf_key:
  "A \<noteq> [] \<Longrightarrow>
   rule_conf af A n =
     (case lookup af (antecedent_key A) of Inl e \<Rightarrow> Inl e | Inr d \<Rightarrow> true_div n d)"
proof (cases A)
  case Nil
  assume "A \<noteq> []"
  with Nil show ?thesis by simp
next
  case (Cons a as)
  then show ?thesis
    by (cases as) (simp_all add: rule_conf_def)
qed

lemma in_bare_items_map_of:
  assumes "a \<in> set (bare_items (map fst l))"
  obtains m where "map_of l (Item a) = Some m" "(Item a, m) \<in> set l"
proof -
  from assms have "Item a \<in> fst ` set l"
    by (simp add: in_bare_items)
  then obtain m where "map_of l (Item a) = Some m"
    by (cases "map_of l (Item a)") (auto simp: map_of_eq_None_iff)
  moreover from this have "(Item a, m) \<in> set l"
    by (rule map_of_SomeD)
  ultimately show ?thesis by (rule that)
qed

lemma antecedent_support:
  assumes ap: "apriori bs s c_1 = (af, ag)"
    and X: "(X, n) \<in> set ag"
    and i: "1 \<le> i" "i < length (key_elems X)"
    and A: "A \<in> set (combinations (key_elems X) i)"
  shows "\<exists>t m. X = Tup t \<and> 2 \<le> length t \<and> sorted_wrt (<) t \<and> n = support_count bs t \<and> s < n \<and> 1 \<le> n \<and>
           A \<noteq> [] \<and> length A = i \<and> sorted_wrt (<) A \<and> set A \<subseteq> set t \<and>
           map_of af (antecedent_key A) = Some m \<and> s < m \<and>
           (1 < length A \<longrightarrow> m = support_count bs A) \<and>
           (length A = 1 \<longrightarrow> map_of (filter_candidates c_1 s) (Item (hd A)) = Some m)"
proof -
  let ?l = "filter_candidates c_1 s"
  from apriori_char [OF ap] obtain K where
    af: "\<And>x. map_of af x = (map_of ?l ++ levels_map bs s ?l 2 K) x"
    and ag: "\<And>x. map_of ag x = levels_map bs s ?l 2 K x"
    and wf: "wf_dict ag"
    by blast
  from X wf have "map_of ag X = Some n"
    by (simp add: wf_dict_def)
  then have lm: "levels_map bs s ?l 2 K X = Some n"
    by (simp add: ag)
  then have len: "2 \<le> length (key_elems X)" "length (key_elems X) < K"
    and lv: "map_of (level bs s ?l (length (key_elems X))) X = Some n"
    by (simp_all add: levels_map_def split: if_splits)
  from lv obtain t where t: "X = Tup t" "sorted_wrt (<) t" "set t \<subseteq> set (bare_items (map fst ?l))"
    "\<exists>b\<in>set bs. set t \<subseteq> b" "n = support_count bs t" "s < n"
    by (auto simp: map_of_level)
  from len t have lt: "2 \<le> length t" "length t < K" by simp_all
  from A t have At: "A \<in> set (combinations t i)" by simp
  then have lenA: "length A = i" by (rule length_combinations)
  from At t(2) have sA: "sorted_wrt (<) A" and subA: "set A \<subseteq> set t"
    by (simp_all add: in_combinations)
  from lenA i have ne: "A \<noteq> []" by auto
  from t(4) have n1: "1 \<le> n" unfolding t(5) by (rule support_count_pos)
  have "\<exists>m. map_of af (antecedent_key A) = Some m \<and> s < m \<and>
           (1 < length A \<longrightarrow> m = support_count bs A) \<and>
           (length A = 1 \<longrightarrow> map_of ?l (Item (hd A)) = Some m)"
  proof (cases "i = 1")
    case True
    with lenA obtain a where a: "A = [a]"
      by (cases A) auto
    with subA t(3) have "a \<in> set (bare_items (map fst ?l))" by auto
    then obtain m where m: "map_of ?l (Item a) = Some m" "(Item a, m) \<in> set ?l"
      by (rule in_bare_items_map_of)
    from m(2) have "s < m" by (rule filter_candidates_above)
    moreover have "map_of af (Item a) = Some m"
      by (simp add: af map_add_def levels_map_Item m(1))
    ultimately show ?thesis using a m(1) by simp
  next
    case False
    with i lenA have l2: "2 \<le> length A" by simp
    then have key: "antecedent_key A = Tup A"
      by (cases A rule: antecedent_key.cases) auto
    have "s < support_count bs A"
      using support_count_mono [OF subA, of bs] t(5,6) by simp
    moreover from t(4) subA have "\<exists>b\<in>set bs. set A \<subseteq> b" by blast
    ultimately have "map_of (level bs s ?l (length A)) (Tup A) = Some (support_count bs A)"
      using sA subA t(3) by (simp add: map_of_level)
    moreover have "length A < K" using lenA i t(1) lt by simp
    ultimately have "levels_map bs s ?l 2 K (Tup A) = Some (support_count bs A)"
      using l2 by (simp add: levels_map_def)
    then have "map_of af (Tup A) = Some (support_count bs A)"
      by (simp add: af map_add_def)
    then show ?thesis
      using key l2 \<open>s < support_count bs A\<close> by simp
  qed
  with t lt lenA sA subA ne n1 show ?thesis by blast
qed

section \<open>The level-1 counter and the confidences of the program\<close>

lemma fold_items:
  "fold (\<lambda>item c. increment c (Item item)) row c = fold (\<lambda>x c. increment c x) (map Item row) c"
  by (induction row arbitrary: c) simp_all

lemma counter_fold:
  "fold (\<lambda>row_list (c_1, all_baskets).
           (fold (\<lambda>item c. increment c (Item item)) row_list c_1, all_baskets @ [set row_list]))
        rows (c, bs)
   = (fold (\<lambda>x c. increment c x) (map Item (concat rows)) c, bs @ map set rows)"
  by (induction rows arbitrary: c bs) (simp_all add: fold_items)

lemma generate_all_single_candidates_fold:
  "generate_all_single_candidates rows =
     (fold (\<lambda>x c. increment c x) (map Item (concat rows)) [], map set rows)"
  by (simp add: generate_all_single_candidates_def counter_fold)

lemma count_list_map_Item: "count_list (map Item xs) (Item a) = count_list xs a"
  by (induction xs) auto

lemma counter_char:
  assumes "generate_all_single_candidates rows = (c_1, all_baskets)"
  shows "all_baskets = map set rows" "wf_dict c_1"
    "map_of c_1 (Item a) =
       (if a \<in> set (concat rows) then Some (int (count_list (concat rows) a)) else None)"
    "map_of c_1 (Tup t) = None"
proof -
  from assms have c: "c_1 = fold (\<lambda>x c. increment c x) (map Item (concat rows)) []"
    and b: "all_baskets = map set rows"
    by (simp_all add: generate_all_single_candidates_fold)
  show "all_baskets = map set rows" by (rule b)
  show "wf_dict c_1" unfolding c by (rule wf_fold_increment) (simp add: wf_dict_def)
  have "Item a \<in> set (map Item (concat rows)) \<longleftrightarrow> a \<in> set (concat rows)"
    by auto
  then show "map_of c_1 (Item a) =
       (if a \<in> set (concat rows) then Some (int (count_list (concat rows) a)) else None)"
    unfolding c map_of_fold_increment by (simp add: cnt_def count_list_map_Item)
  have "Tup t \<notin> set (map Item (concat rows))" by auto
  then show "map_of c_1 (Tup t) = None"
    unfolding c map_of_fold_increment by simp
qed

lemma tokens_ge_baskets:
  "support_count (map set rows) [a] \<le> int (count_list (concat rows) a)"
proof (induction rows)
  case Nil
  then show ?case by (simp add: support_count_def)
next
  case (Cons r rows)
  have "a \<in> set r \<Longrightarrow> 1 \<le> count_list r a"
    using count_list_0_iff [of r a] by simp
  with Cons show ?case
    by (auto simp: support_count_def)
qed

lemma pipeline_conf:
  assumes counter: "generate_all_single_candidates rows = (c_1, bs)"
    and ap: "apriori bs s c_1 = (af, ag)"
    and X: "(X, n) \<in> set ag"
    and i: "1 \<le> i" "i < length (key_elems X)"
    and A: "A \<in> set (combinations (key_elems X) i)"
  shows "\<exists>m. lookup af (antecedent_key A) = Inr m \<and> 1 \<le> n \<and> n \<le> m \<and> s < m \<and>
             rule_conf af A n = Inr (of_int n / of_int m)"
proof -
  let ?l = "filter_candidates c_1 s"
  from antecedent_support [OF ap X i A] obtain t m where
    t: "X = Tup t" "n = support_count bs t" "1 \<le> n" "A \<noteq> []" "set A \<subseteq> set t"
    and m: "map_of af (antecedent_key A) = Some m" "s < m"
      "1 < length A \<longrightarrow> m = support_count bs A"
      "length A = 1 \<longrightarrow> map_of ?l (Item (hd A)) = Some m"
    by blast
  note cc = counter_char [OF counter]
  have nm: "n \<le> m"
  proof (cases "1 < length A")
    case True
    with m(3) support_count_mono [OF t(5), of bs] t(2) show ?thesis by simp
  next
    case False
    with t(4) obtain a where a: "A = [a]"
      by (cases A) auto
    with m(4) have "map_of ?l (Item a) = Some m" by simp
    then have "map_of c_1 (Item a) = Some m"
      by (simp add: map_of_filter_candidates [OF cc(2)] split: option.splits if_splits)
    then have "m = int (count_list (concat rows) a)"
      by (simp add: cc(3) split: if_splits)
    then have "support_count bs [a] \<le> m"
      using tokens_ge_baskets [of rows a] by (simp add: cc(1))
    moreover have "n \<le> support_count bs [a]"
      using support_count_mono [OF t(5), of bs] t(2) a by simp
    ultimately show ?thesis by simp
  qed
  have "lookup af (antecedent_key A) = Inr m"
    by (simp add: lookup_def m(1))
  moreover from this nm t(3) have "rule_conf af A n = Inr (of_int n / of_int m)"
    by (simp add: rule_conf_key [OF t(4)] true_div_def)
  ultimately show ?thesis
    using nm t(3) m(2) by blast
qed

section \<open>The rule list\<close>

lemma fold_err_append:
  assumes "\<And>x acc. x \<in> set xs \<Longrightarrow> f x acc = Inr (acc @ h x)"
  shows "fold_err f xs acc = Inr (acc @ concat (map h xs))"
  using assms by (induction xs arbitrary: acc) simp_all

lemma rule_step_Inr:
  assumes "rule_conf af A n = Inr c"
  shows "rule_step af t n thr A acc = Inr (acc @ emitted af thr t n A)"
  using assms by (simp add: rule_step_def emitted_def conf_of_def Let_def)

lemma generate_association_rules_Inr:
  assumes ok: "\<And>X n i A. (X, n) \<in> set ag \<Longrightarrow> 1 \<le> i \<Longrightarrow> i < length (key_elems X) \<Longrightarrow>
      A \<in> set (combinations (key_elems X) i) \<Longrightarrow> \<exists>c. rule_conf af A n = Inr c"
  shows "generate_association_rules af ag thr = Inr (concat (map (rules_of af thr) ag))"
proof -
  have inner: "fold_err (rule_step af (key_elems X) n thr) (combinations (key_elems X) i) acc
      = Inr (acc @ concat (map (emitted af thr (key_elems X) n) (combinations (key_elems X) i)))"
    if "(X, n) \<in> set ag" "i \<in> set [1 ..< length (key_elems X)]" for X n i acc
  proof (rule fold_err_append)
    fix A acc'
    assume "A \<in> set (combinations (key_elems X) i)"
    with ok [of X n i A] that obtain c where "rule_conf af A n = Inr c"
      by auto
    then show "rule_step af (key_elems X) n thr A acc' = Inr (acc' @ emitted af thr (key_elems X) n A)"
      by (rule rule_step_Inr)
  qed
  have middle: "(case p of (freq_itemset, support) \<Rightarrow>
          fold_err (\<lambda>i. fold_err (rule_step af (key_elems freq_itemset) support thr)
                           (combinations (key_elems freq_itemset) i))
            [1 ..< length (key_elems freq_itemset)]) acc
      = Inr (acc @ rules_of af thr p)"
    if "p \<in> set ag" for p acc
  proof -
    obtain X n where p: "p = (X, n)" by (cases p)
    with that have Xn: "(X, n) \<in> set ag" by simp
    have "fold_err (\<lambda>i. fold_err (rule_step af (key_elems X) n thr) (combinations (key_elems X) i))
            [1 ..< length (key_elems X)] acc
        = Inr (acc @ concat (map (\<lambda>i. concat (map (emitted af thr (key_elems X) n)
              (combinations (key_elems X) i))) [1 ..< length (key_elems X)]))"
      by (rule fold_err_append) (rule inner [OF Xn])
    then show ?thesis by (simp add: p rules_of_def)
  qed
  have "fold_err (\<lambda>p. case p of (freq_itemset, support) \<Rightarrow>
          fold_err (\<lambda>i. fold_err (rule_step af (key_elems freq_itemset) support thr)
                           (combinations (key_elems freq_itemset) i))
            [1 ..< length (key_elems freq_itemset)]) ag []
      = Inr ([] @ concat (map (rules_of af thr) ag))"
    by (rule fold_err_append) (rule middle)
  then show ?thesis
    by (simp add: generate_association_rules_def)
qed

lemma in_emitted:
  "r \<in> set (emitted af thr t n A) \<longleftrightarrow>
     thr < conf_of af A n \<and> r = (set A, ''->'', set t - set A, n, conf_of af A n)"
  by (auto simp: emitted_def)

lemma in_rules_of_entry:
  "r \<in> set (rules_of af thr (X, n)) \<longleftrightarrow>
     (\<exists>i A. 1 \<le> i \<and> i < length (key_elems X) \<and> A \<in> set (combinations (key_elems X) i) \<and>
        r \<in> set (emitted af thr (key_elems X) n A))"
  by (auto simp: rules_of_def)

lemma in_rules_of:
  "r \<in> set (concat (map (rules_of af thr) ag)) \<longleftrightarrow>
     (\<exists>X n i A. (X, n) \<in> set ag \<and> 1 \<le> i \<and> i < length (key_elems X) \<and>
        A \<in> set (combinations (key_elems X) i) \<and> thr < conf_of af A n \<and>
        r = (set A, ''->'', set (key_elems X) - set A, n, conf_of af A n))"
proof -
  have "r \<in> set (concat (map (rules_of af thr) ag)) \<longleftrightarrow>
      (\<exists>X n. (X, n) \<in> set ag \<and> r \<in> set (rules_of af thr (X, n)))"
    by auto
  then show ?thesis
    unfolding in_rules_of_entry in_emitted by blast
qed

section \<open>Counts of the program\<close>

lemma fold_increment_pos:
  assumes "(x, n) \<in> set (fold (\<lambda>x c. increment c x) xs [])"
  shows "1 \<le> n"
proof -
  have wf: "wf_dict (fold (\<lambda>x c. increment c x) xs [])"
    by (rule wf_fold_increment) (simp add: wf_dict_def)
  with assms have m: "map_of (fold (\<lambda>x c. increment c x) xs []) x = Some n"
    by (simp add: wf_dict_def)
  show ?thesis
  proof (cases "x \<in> set xs")
    case True
    then have "0 < count_list xs x"
      using count_list_0_iff [of xs x] by simp
    with m True show ?thesis
      by (simp add: map_of_fold_increment cnt_def)
  next
    case False
    with m show ?thesis by (simp add: map_of_fold_increment)
  qed
qed

lemma level_entry_pos:
  "map_of (level all_baskets support l_1 k) x = Some n \<Longrightarrow> 1 \<le> n"
  using support_count_pos [of all_baskets] by (auto simp: map_of_level)

lemma levels_map_pos:
  "levels_map all_baskets support l_1 k K x = Some n \<Longrightarrow> 1 \<le> n"
  by (auto simp: levels_map_def level_entry_pos split: if_splits)

lemma pipeline_counts_pos:
  assumes counter: "generate_all_single_candidates rows = (c_1, bs)"
    and ap: "apriori bs s c_1 = (af, ag)"
  shows "(x, n) \<in> set c_1 \<Longrightarrow> 1 \<le> n"
    and "(x, n) \<in> set af \<Longrightarrow> 1 \<le> n"
    and "(x, n) \<in> set ag \<Longrightarrow> 1 \<le> n"
proof -
  let ?l = "filter_candidates c_1 s"
  note cc = counter_char [OF counter]
  show c1: "1 \<le> n" if "(x, n) \<in> set c_1" for x n
    using that counter by (auto simp: generate_all_single_candidates_fold dest: fold_increment_pos)
  from apriori_char [OF ap] obtain K where
    af: "\<And>x. map_of af x = (map_of ?l ++ levels_map bs s ?l 2 K) x"
    and ag: "\<And>x. map_of ag x = levels_map bs s ?l 2 K x"
    and wf: "wf_dict af" "wf_dict ag"
    by blast
  show "1 \<le> n" if "(x, n) \<in> set af"
  proof -
    from that wf have "map_of af x = Some n" by (simp add: wf_dict_def)
    then consider "levels_map bs s ?l 2 K x = Some n" | "map_of ?l x = Some n"
      by (auto simp: af map_add_def split: option.splits)
    then show ?thesis
    proof cases
      case 1
      then show ?thesis by (rule levels_map_pos)
    next
      case 2
      then have "map_of c_1 x = Some n"
        by (simp add: map_of_filter_candidates [OF cc(2)] split: option.splits if_splits)
      then have "(x, n) \<in> set c_1" by (rule map_of_SomeD)
      then show ?thesis by (rule c1)
    qed
  qed
  show "1 \<le> n" if "(x, n) \<in> set ag"
  proof -
    from that wf have "map_of ag x = Some n" by (simp add: wf_dict_def)
    then show ?thesis by (simp add: ag levels_map_pos)
  qed
qed

lemma pipeline_rules:
  assumes counter: "generate_all_single_candidates rows = (c_1, bs)"
    and ap: "apriori bs s c_1 = (af, ag)"
  shows "generate_association_rules af ag thr = Inr (concat (map (rules_of af thr) ag))"
proof (rule generate_association_rules_Inr)
  fix X n i A
  assume "(X, n) \<in> set ag" "1 \<le> i" "i < length (key_elems X)"
    "A \<in> set (combinations (key_elems X) i)"
  from pipeline_conf [OF counter ap this] show "\<exists>c. rule_conf af A n = Inr c"
    by blast
qed


section \<open>A run of the program\<close>

text \<open>The corpus \<open>a b\<close>, \<open>a b c\<close>, \<open>a\<close> with support threshold 1.\<close>

lemma scenario_counter:
  "generate_all_single_candidates [[''a'', ''b''], [''a'', ''b'', ''c''], [''a'']]
     = ([(Item ''a'', 3), (Item ''b'', 2), (Item ''c'', 1)],
        [{''a'', ''b''}, {''a'', ''b'', ''c''}, {''a''}])"
  by code_simp

lemma scenario_apriori:
  "apriori [{''a'', ''b''}, {''a'', ''b'', ''c''}, {''a''}] 1
       [(Item ''a'', 3), (Item ''b'', 2), (Item ''c'', 1)]
     = ([(Item ''a'', 3), (Item ''b'', 2), (Tup [''a'', ''b''], 2)], [(Tup [''a'', ''b''], 2)])"
  by code_simp

section \<open>Bounds\<close>


lemma generate_next_candidates_pos:
  "(x, n) \<in> set (generate_next_candidates all_baskets l_1 k) \<Longrightarrow> 1 \<le> n"
  unfolding generate_next_candidates_fold by (rule fold_increment_pos)


section \<open>Order of the baskets\<close>

lemma mset_concat_cong:
  assumes "mset rows' = mset rows"
  shows "mset (concat rows') = mset (concat rows)"
proof -
  have "mset (concat xs) = sum_mset (image_mset mset (mset xs))" for xs :: "'a list list"
    by (induction xs) simp_all
  with assms show ?thesis by simp
qed

lemma support_count_mset:
  "support_count bs t = int (size (filter_mset (\<lambda>b. set t \<subseteq> b) (mset bs)))"
proof -
  have "length (filter P bs) = size (filter_mset P (mset bs))" for P
    by (simp flip: mset_filter)
  then show ?thesis by (simp add: support_count_def)
qed

lemma bare_items_map_of:
  "set (bare_items (map fst l)) = {a. map_of l (Item a) \<noteq> None}"
  by (force simp: in_bare_items map_of_eq_None_iff)

lemma generate_next_candidates_cong:
  assumes "mset bs' = mset bs"
    and "set (bare_items (map fst l')) = set (bare_items (map fst l))"
  shows "map_of (generate_next_candidates bs' l' k) x = map_of (generate_next_candidates bs l k) x"
proof (cases x)
  case (Item a)
  then show ?thesis by (simp add: map_of_generate_next_candidates_Item)
next
  case (Tup t)
  from assms(1) have "set bs' = set bs" by (rule mset_eq_setD)
  moreover from assms(1) have "support_count bs' t = support_count bs t"
    by (simp add: support_count_mset)
  ultimately show ?thesis
    using assms(2) by (simp add: Tup map_of_generate_next_candidates_Tup)
qed

lemma level_cong:
  assumes "mset bs' = mset bs"
    and "set (bare_items (map fst l')) = set (bare_items (map fst l))"
  shows "map_of (level bs' s l' k) x = map_of (level bs s l k) x"
  by (simp add: level_def map_of_filter_candidates wf_generate_next_candidates
      generate_next_candidates_cong [OF assms])

lemma empty_cong:
  assumes "\<And>x. map_of d' x = map_of d x"
  shows "d' = [] \<longleftrightarrow> d = []"
proof -
  from assms have "map_of d' = map_of d" by (rule ext)
  then have "map_of d' = Map.empty \<longleftrightarrow> map_of d = Map.empty" by simp
  then show ?thesis by (simp only: map_of_eq_empty_iff)
qed

lemma rule_conf_cong:
  assumes "\<And>x. map_of af' x = map_of af x"
  shows "rule_conf af' A n = rule_conf af A n"
proof -
  have "lookup af' = lookup af"
    by (rule ext) (simp add: lookup_def assms)
  then show ?thesis by (simp add: rule_conf_def split: list.split)
qed

lemma pipeline_cong:
  assumes perm: "mset rows' = mset rows"
    and c: "generate_all_single_candidates rows = (c_1, bs)"
    and c': "generate_all_single_candidates rows' = (c_1', bs')"
    and ap: "apriori bs s c_1 = (af, ag)"
    and ap': "apriori bs' s c_1' = (af', ag')"
  shows "map_of c_1' x = map_of c_1 x"
    and "mset bs' = mset bs"
    and "set (bare_items (map fst (filter_candidates c_1' s)))
          = set (bare_items (map fst (filter_candidates c_1 s)))"
    and "map_of af' x = map_of af x"
    and "map_of ag' x = map_of ag x"
proof -
  let ?l = "filter_candidates c_1 s" and ?l' = "filter_candidates c_1' s"
  note cc = counter_char [OF c] and cc' = counter_char [OF c']
  from perm have mc: "mset (concat rows') = mset (concat rows)"
    by (rule mset_concat_cong)
  then have sc: "set (concat rows') = set (concat rows)"
    by (rule mset_eq_setD)
  have cl: "count_list (concat rows') a = count_list (concat rows) a" for a
    using mc by (metis count_mset)
  show m1: "map_of c_1' x = map_of c_1 x" for x
  proof (cases x)
    case (Item a)
    then show ?thesis unfolding Item cc(3) cc'(3) using sc cl by simp
  next
    case (Tup t)
    then show ?thesis by (simp add: cc(4) cc'(4))
  qed
  show mb: "mset bs' = mset bs"
    using perm unfolding cc(1) cc'(1) by (metis mset_map)
  have ml: "map_of ?l' x = map_of ?l x" for x
    by (simp add: map_of_filter_candidates [OF cc(2)] map_of_filter_candidates [OF cc'(2)] m1)
  show bi: "set (bare_items (map fst ?l')) = set (bare_items (map fst ?l))"
    by (simp add: bare_items_map_of ml)
  note lc = level_cong [OF mb bi, of s]
  have le: "level bs' s ?l' j = [] \<longleftrightarrow> level bs s ?l j = []" for j
    by (rule empty_cong) (rule lc)
  have l1e: "?l' = [] \<longleftrightarrow> ?l = []"
    by (rule empty_cong) (rule ml)
  from apriori_char [OF ap] obtain K where
    K: "\<And>x. map_of af x = (map_of ?l ++ levels_map bs s ?l 2 K) x"
      "\<And>x. map_of ag x = levels_map bs s ?l 2 K x"
      "?l = [] \<longrightarrow> K = 2"
      "?l \<noteq> [] \<longrightarrow> 2 < K \<and> level bs s ?l (K - 1) = [] \<and>
         (\<forall>j. 2 \<le> j \<and> j < K - 1 \<longrightarrow> level bs s ?l j \<noteq> [])"
    by blast
  from apriori_char [OF ap'] obtain K' where
    K': "\<And>x. map_of af' x = (map_of ?l' ++ levels_map bs' s ?l' 2 K') x"
      "\<And>x. map_of ag' x = levels_map bs' s ?l' 2 K' x"
      "?l' = [] \<longrightarrow> K' = 2"
      "?l' \<noteq> [] \<longrightarrow> 2 < K' \<and> level bs' s ?l' (K' - 1) = [] \<and>
         (\<forall>j. 2 \<le> j \<and> j < K' - 1 \<longrightarrow> level bs' s ?l' j \<noteq> [])"
    by blast
  have KK: "K' = K"
  proof (cases "?l = []")
    case True
    with K(3) K'(3) l1e show ?thesis by simp
  next
    case False
    with l1e have ne': "?l' \<noteq> []" by simp
    from False K(4) have k: "2 < K" "level bs s ?l (K - 1) = []"
      "\<And>j. 2 \<le> j \<Longrightarrow> j < K - 1 \<Longrightarrow> level bs s ?l j \<noteq> []"
      by simp_all
    from ne' K'(4) have k': "2 < K'" "level bs' s ?l' (K' - 1) = []"
      "\<And>j. 2 \<le> j \<Longrightarrow> j < K' - 1 \<Longrightarrow> level bs' s ?l' j \<noteq> []"
      by simp_all
    have "\<not> K - 1 < K' - 1"
    proof
      assume "K - 1 < K' - 1"
      with k(1) have "level bs' s ?l' (K - 1) \<noteq> []" by (intro k'(3)) simp_all
      with le k(2) show False by simp
    qed
    moreover have "\<not> K' - 1 < K - 1"
    proof
      assume "K' - 1 < K - 1"
      with k'(1) have "level bs s ?l (K' - 1) \<noteq> []" by (intro k(3)) simp_all
      with le k'(2) show False by simp
    qed
    ultimately show ?thesis using k(1) k'(1) by simp
  qed
  have lm: "levels_map bs' s ?l' 2 K' x = levels_map bs s ?l 2 K x" for x
    by (simp add: levels_map_def lc KK)
  show "map_of af' x = map_of af x"
    by (simp add: K(1) K'(1) map_add_def lm ml split: option.split)
  show "map_of ag' x = map_of ag x"
    by (simp add: K(2) K'(2) lm)
qed

lemma rules_cong:
  assumes af: "\<And>x. map_of af' x = map_of af x"
    and ag: "\<And>x. map_of ag' x = map_of ag x"
    and wf: "wf_dict ag" "wf_dict ag'"
  shows "set (concat (map (rules_of af' thr) ag')) = set (concat (map (rules_of af thr) ag))"
proof -
  have c: "conf_of af' A n = conf_of af A n" for A n
    by (simp add: conf_of_def rule_conf_cong [of af' af, OF af])
  have m: "(X, n) \<in> set ag' \<longleftrightarrow> (X, n) \<in> set ag" for X n
  proof -
    have "(X, n) \<in> set ag' \<longleftrightarrow> map_of ag' X = Some n"
      using wf(2) by (simp add: wf_dict_def)
    also have "\<dots> \<longleftrightarrow> map_of ag X = Some n" by (simp add: ag)
    also have "\<dots> \<longleftrightarrow> (X, n) \<in> set ag"
      using wf(1) by (simp add: wf_dict_def)
    finally show ?thesis .
  qed
  show ?thesis
    by (rule set_eqI) (simp only: in_rules_of c m)
qed

lemma two_rows_counter:
  "generate_all_single_candidates [[''c'', ''a''], [''b'', ''a'']]
     = ([(Item ''c'', 1), (Item ''a'', 2), (Item ''b'', 1)], [{''c'', ''a''}, {''b'', ''a''}])"
  by code_simp

lemma two_rows_counter_permuted:
  "generate_all_single_candidates [[''b'', ''a''], [''c'', ''a'']]
     = ([(Item ''b'', 1), (Item ''a'', 2), (Item ''c'', 1)], [{''b'', ''a''}, {''c'', ''a''}])"
  by code_simp

lemma two_rows_apriori:
  "apriori [{''c'', ''a''}, {''b'', ''a''}] 0 [(Item ''c'', 1), (Item ''a'', 2), (Item ''b'', 1)]
     = ([(Item ''c'', 1), (Item ''a'', 2), (Item ''b'', 1), (Tup [''a'', ''c''], 1), (Tup [''a'', ''b''], 1)],
        [(Tup [''a'', ''c''], 1), (Tup [''a'', ''b''], 1)])"
  by code_simp

lemma two_rows_apriori_permuted:
  "apriori [{''b'', ''a''}, {''c'', ''a''}] 0 [(Item ''b'', 1), (Item ''a'', 2), (Item ''c'', 1)]
     = ([(Item ''b'', 1), (Item ''a'', 2), (Item ''c'', 1), (Tup [''a'', ''b''], 1), (Tup [''a'', ''c''], 1)],
        [(Tup [''a'', ''b''], 1), (Tup [''a'', ''c''], 1)])"
  by code_simp

section \<open>Rows without repeated tokens\<close>

text \<open>
  Where no row repeats a token, the level-1 counter does count baskets.
\<close>

lemma counter_counts_baskets:
  assumes "\<forall>row\<in>set rows. distinct row"
    and "generate_all_single_candidates rows = (c_1, all_baskets)"
  shows "map_of c_1 (Item a) =
     (if \<exists>basket\<in>set all_baskets. a \<in> basket then Some (support_count all_baskets [a]) else None)"
proof -
  have "int (count_list (concat rows) a) = support_count (map set rows) [a]"
    using assms(1) by (induction rows) (simp_all add: support_count_def count_list_distinct)
  then show ?thesis
    by (simp add: counter_char [OF assms(2)])
qed

section \<open>The rule list with the division as a parameter\<close>

text \<open>With the exact quotient for the division, the rule miner above is obtained.\<close>

lemma rule_conf_with_true_div: "rule_conf_with true_div = rule_conf"
  by (intro ext) (simp add: rule_conf_with_def rule_conf_def)

lemma rule_step_with_true_div: "rule_step_with true_div = rule_step"
  by (intro ext) (simp add: rule_step_with_def rule_step_def rule_conf_with_true_div)

lemma generate_association_rules_with_true_div:
  "generate_association_rules_with true_div = generate_association_rules"
  by (intro ext)
    (simp add: generate_association_rules_with_def generate_association_rules_def
      rule_step_with_true_div)







section \<open>Doubles between 0 and 1\<close>








section \<open>Two more runs of the program\<close>





section \<open>Baskets of the counted corpus\<close>


section \<open>Claims\<close>

text \<open>
  C1. The claim: the level-1 counter maps each item to the number of baskets containing it,
  a row that lists an item twice counting once. The counter runs over the tokens of the
  row, not over the basket built from it: on the one row \<open>a a\<close> it stores 2 for \<open>a\<close>, while
  the only basket, \<open>{a}\<close>, contains \<open>a\<close> once.
\<close>

theorem level_1_counter_counts_tokens:
  "generate_all_single_candidates [[''a'', ''a'']] = ([(Item ''a'', 2)], [{''a''}]) \<and>
   support_count [{''a''}] [''a''] = 1"
  by (simp add: generate_all_single_candidates_def increment_def support_count_def)

text \<open>
  C2. Whatever the baskets, the threshold and \<open>c_1\<close>: for every entry \<open>(X, n)\<close> that \<open>apriori\<close>
  puts into \<open>all_itemsets_greater_than_1\<close>, \<open>X\<close> is a strictly increasing tuple of at least
  two items, and every combination \<open>A\<close> of \<open>i\<close> of its items, \<open>1 \<le> i < |X|\<close>, is strictly
  increasing and is a key of \<open>all_frequent_itemsets\<close> under the key the rule miner uses (the
  bare item for one item, the tuple otherwise), with a count above the threshold. The
  lookup of the rule miner therefore raises neither \<open>KeyError\<close> nor \<open>IndexError\<close>.
\<close>

theorem antecedents_in_all_frequent:
  assumes "apriori all_baskets support c_1 = (all_frequent_itemsets, all_itemsets_greater_than_1)"
    and "(X, n) \<in> set all_itemsets_greater_than_1"
    and "1 \<le> i" and "i < length (key_elems X)"
    and "A \<in> set (combinations (key_elems X) i)"
  shows "(\<exists>t. X = Tup t \<and> 2 \<le> length t \<and> sorted_wrt (<) t) \<and> sorted_wrt (<) A \<and>
         (\<exists>m. lookup all_frequent_itemsets (antecedent_key A) = Inr m \<and> support < m) \<and>
         rule_conf all_frequent_itemsets A n \<noteq> Inl KeyError \<and>
         rule_conf all_frequent_itemsets A n \<noteq> Inl IndexError"
proof -
  from antecedent_support [OF assms] obtain t m where
    t: "X = Tup t" "2 \<le> length t" "sorted_wrt (<) t" "A \<noteq> []" "sorted_wrt (<) A"
    and m: "map_of all_frequent_itemsets (antecedent_key A) = Some m" "support < m"
    by blast
  from m(1) have l: "lookup all_frequent_itemsets (antecedent_key A) = Inr m"
    by (simp add: lookup_def)
  then have "rule_conf all_frequent_itemsets A n = true_div n m"
    by (simp add: rule_conf_key [OF t(4)])
  then have "rule_conf all_frequent_itemsets A n \<noteq> Inl KeyError"
    "rule_conf all_frequent_itemsets A n \<noteq> Inl IndexError"
    by (simp_all add: true_div_def)
  with t l m(2) show ?thesis by blast
qed

theorem antecedents_in_all_frequent_witness:
  "lookup [(Item ''a'', 3), (Item ''b'', 2), (Tup [''a'', ''b''], 2)] (antecedent_key [''b'']) = Inr 2 \<and>
   rule_conf [(Item ''a'', 3), (Item ''b'', 2), (Tup [''a'', ''b''], 2)] [''b''] 2 \<noteq> Inl KeyError"
proof -
  have X: "(Tup [''a'', ''b''], 2) \<in> set [(Tup [''a'', ''b''], 2 :: int)]" by simp
  have i: "(1::nat) \<le> 1" "1 < length (key_elems (Tup [''a'', ''b'']))" by simp_all
  have A: "[''b''] \<in> set (combinations (key_elems (Tup [''a'', ''b''])) 1)"
    by (simp add: numeral_2_eq_2)
  have l: "lookup [(Item ''a'', 3), (Item ''b'', 2), (Tup [''a'', ''b''], 2)] (antecedent_key [''b'']) = Inr 2"
    by (simp add: lookup_def)
  from antecedents_in_all_frequent [OF scenario_apriori X i A] l show ?thesis
    by simp
qed

text \<open>
  C3. For a dictionary \<open>c_k\<close> (keys distinct) and every integer \<open>support\<close>, a pair is in the
  output of \<open>filter_candidates\<close> exactly when it is in \<open>c_k\<close> and its count is strictly
  greater than \<open>support\<close>; the count is the one of \<open>c_k\<close>.
\<close>

theorem filter_candidates_strict:
  "wf_dict c_k \<Longrightarrow>
   (itemset, total_count) \<in> set (filter_candidates c_k support) \<longleftrightarrow>
     (itemset, total_count) \<in> set c_k \<and> total_count > support"
  by (auto simp: filter_candidates_filter)

theorem filter_candidates_strict_witness:
  "wf_dict [(Item ''a'', 3), (Item ''b'', 2), (Item ''c'', 1)] \<and>
   (Item ''a'', 3) \<in> set (filter_candidates [(Item ''a'', 3), (Item ''b'', 2), (Item ''c'', 1)] 2) \<and>
   (Item ''b'', 2) \<notin> set (filter_candidates [(Item ''a'', 3), (Item ''b'', 2), (Item ''c'', 1)] 2)"
proof -
  have h: "wf_dict [(Item ''a'', 3), (Item ''b'', 2), (Item ''c'', 1)]"
    by (simp add: wf_dict_def)
  show ?thesis
    using h filter_candidates_strict [OF h, of "Item ''a''" 3 2]
      filter_candidates_strict [OF h, of "Item ''b''" 2 2]
    by simp
qed




text \<open>
  C5. For every basket list, every table \<open>l_1\<close> and every \<open>k\<close> (in particular \<open>k \<ge> 2\<close>), the
  table of \<open>generate_next_candidates\<close> has no bare-item key, and holds the tuple \<open>t\<close> exactly
  when \<open>t\<close> has length \<open>k\<close>, is strictly increasing (sorted, its items distinct), consists
  of bare-item keys of \<open>l_1\<close> and is contained in at least one basket; its count is then the
  number of baskets containing all its items, every basket counted once.
\<close>

theorem generate_next_candidates_table:
  "wf_dict (generate_next_candidates all_baskets l_1 k) \<and>
   map_of (generate_next_candidates all_baskets l_1 k) x =
     (case x of
        Item a \<Rightarrow> None
      | Tup t \<Rightarrow>
          if length t = k \<and> sorted_wrt (<) t \<and> set t \<subseteq> set (bare_items (map fst l_1)) \<and>
             (\<exists>basket\<in>set all_baskets. set t \<subseteq> basket)
          then Some (support_count all_baskets t) else None)"
  by (simp add: wf_generate_next_candidates map_of_generate_next_candidates_Tup
      map_of_generate_next_candidates_Item split: key.split)

theorem generate_next_candidates_table_witness:
  "map_of (generate_next_candidates [{''b'', ''a''}, {''a'', ''b'', ''c''}, {''a''}]
      [(Item ''b'', 2), (Item ''a'', 3)] 2) (Tup [''a'', ''b'']) = Some 2 \<and>
   map_of (generate_next_candidates [{''b'', ''a''}, {''a'', ''b'', ''c''}, {''a''}]
      [(Item ''b'', 2), (Item ''a'', 3)] 2) (Tup [''a'', ''c'']) = None \<and>
   map_of (generate_next_candidates [{''b'', ''a''}, {''a'', ''b'', ''c''}, {''a''}]
      [(Item ''b'', 2), (Item ''a'', 3)] 2) (Tup [''b'', ''a'']) = None"
  using generate_next_candidates_table [of "[{''b'', ''a''}, {''a'', ''b'', ''c''}, {''a''}]"
      "[(Item ''b'', 2), (Item ''a'', 3)]" 2 "Tup [''a'', ''b'']"]
    generate_next_candidates_table [of "[{''b'', ''a''}, {''a'', ''b'', ''c''}, {''a''}]"
      "[(Item ''b'', 2), (Item ''a'', 3)]" 2 "Tup [''a'', ''c'']"]
    generate_next_candidates_table [of "[{''b'', ''a''}, {''a'', ''b'', ''c''}, {''a''}]"
      "[(Item ''b'', 2), (Item ''a'', 3)]" 2 "Tup [''b'', ''a'']"]
  by (simp add: support_count_def)






text \<open>
  C8. Every combination enumerated for a basket is a subset of that basket, so the subset
  test always succeeds, and the generator without the test returns the same table.
\<close>

theorem subset_check_redundant:
  "(\<forall>tup \<in> set (combinations
        (sorted_list_of_set (set (bare_items (map fst l_1)) \<inter> basket)) k). set tup \<subseteq> basket) \<and>
   generate_next_candidates_nocheck all_baskets l_1 k = generate_next_candidates all_baskets l_1 k"
proof
  show "\<forall>tup \<in> set (combinations
        (sorted_list_of_set (set (bare_items (map fst l_1)) \<inter> basket)) k). set tup \<subseteq> basket"
    using in_candidates_of [of _ l_1 k basket] by (simp add: candidates_of_def)
  show "generate_next_candidates_nocheck all_baskets l_1 k = generate_next_candidates all_baskets l_1 k"
    by (simp add: generate_next_candidates_fold generate_next_candidates_nocheck_fold)
qed

theorem subset_check_redundant_witness:
  "[''a'', ''b''] \<in> set (combinations (sorted_list_of_set
       (set (bare_items (map fst [(Item ''b'', 2), (Item ''a'', 3)])) \<inter> {''b'', ''c'', ''a''})) 2) \<and>
   set [''a'', ''b''] \<subseteq> {''b'', ''c'', ''a''} \<and>
   generate_next_candidates_nocheck [{''b'', ''c'', ''a''}, {''a''}] [(Item ''b'', 2), (Item ''a'', 3)] 2
     = [(Tup [''a'', ''b''], 1)]"
proof -
  have g: "generate_next_candidates [{''b'', ''c'', ''a''}, {''a''}] [(Item ''b'', 2), (Item ''a'', 3)] 2
     = [(Tup [''a'', ''b''], 1)]"
    by code_simp
  have m: "[''a'', ''b''] \<in> set (combinations (sorted_list_of_set
       (set (bare_items (map fst [(Item ''b'', 2), (Item ''a'', 3)])) \<inter> {''b'', ''c'', ''a''})) 2)"
    by code_simp
  from subset_check_redundant [of "[(Item ''b'', 2), (Item ''a'', 3)]" "{''b'', ''c'', ''a''}" 2
      "[{''b'', ''c'', ''a''}, {''a''}]"] m g
  show ?thesis by auto
qed

text \<open>
  C9. Let \<open>rows'\<close> be a permutation of the rows of the corpus. The table of the level-1
  counter, every table of the generator (for a common \<open>l_1\<close>, and for the frequent level-1
  tables of the two runs) and the two tables of the driver are equal as maps in the two
  runs, and the rule miner returns rule lists with the same set of rules.
\<close>

theorem basket_order_irrelevant:
  assumes "mset rows' = mset rows"
    and "generate_all_single_candidates rows = (c_1, all_baskets)"
    and "generate_all_single_candidates rows' = (c_1', all_baskets')"
    and "apriori all_baskets support c_1 = (af, ag)"
    and "apriori all_baskets' support c_1' = (af', ag')"
  shows "map_of c_1' = map_of c_1 \<and>
     map_of (generate_next_candidates all_baskets' l_1 k)
       = map_of (generate_next_candidates all_baskets l_1 k) \<and>
     map_of (generate_next_candidates all_baskets' (filter_candidates c_1' support) k)
       = map_of (generate_next_candidates all_baskets (filter_candidates c_1 support) k) \<and>
     map_of af' = map_of af \<and> map_of ag' = map_of ag \<and>
     (\<exists>association_rules association_rules'.
        generate_association_rules af ag conf_threshold = Inr association_rules \<and>
        generate_association_rules af' ag' conf_threshold = Inr association_rules' \<and>
        set association_rules' = set association_rules)"
proof -
  note p = pipeline_cong [OF assms]
  have 1: "map_of c_1' = map_of c_1" by (rule ext) (rule p(1))
  have 2: "map_of (generate_next_candidates all_baskets' l_1 k)
       = map_of (generate_next_candidates all_baskets l_1 k)"
    by (rule ext) (rule generate_next_candidates_cong [OF p(2) refl])
  have 3: "map_of (generate_next_candidates all_baskets' (filter_candidates c_1' support) k)
       = map_of (generate_next_candidates all_baskets (filter_candidates c_1 support) k)"
    by (rule ext) (rule generate_next_candidates_cong [OF p(2) p(3)])
  have 4: "map_of af' = map_of af" by (rule ext) (rule p(4))
  have 5: "map_of ag' = map_of ag" by (rule ext) (rule p(5))
  from apriori_char [OF assms(4)] have wf: "wf_dict ag" by blast
  from apriori_char [OF assms(5)] have wf': "wf_dict ag'" by blast
  have "set (concat (map (rules_of af' conf_threshold) ag'))
      = set (concat (map (rules_of af conf_threshold) ag))"
    by (rule rules_cong [OF p(4) p(5) wf wf'])
  with pipeline_rules [OF assms(2,4), of conf_threshold]
    pipeline_rules [OF assms(3,5), of conf_threshold]
  have 6: "\<exists>association_rules association_rules'.
        generate_association_rules af ag conf_threshold = Inr association_rules \<and>
        generate_association_rules af' ag' conf_threshold = Inr association_rules' \<and>
        set association_rules' = set association_rules"
    by blast
  from 1 2 3 4 5 6 show ?thesis by blast
qed

theorem basket_order_irrelevant_witness:
  "mset [[''b'', ''a''], [''c'', ''a'']] = mset [[''c'', ''a''], [''b'', ''a'']] \<and>
   map_of [(Item ''b'', 1), (Item ''a'', 2), (Item ''c'', 1)]
     = map_of [(Item ''c'', 1), (Item ''a'', 2), (Item ''b'', 1 :: int)] \<and>
   map_of [(Tup [''a'', ''b''], 1), (Tup [''a'', ''c''], 1)]
     = map_of [(Tup [''a'', ''c''], 1), (Tup [''a'', ''b''], 1 :: int)] \<and>
   (\<exists>association_rules association_rules'.
      generate_association_rules
        [(Item ''c'', 1), (Item ''a'', 2), (Item ''b'', 1), (Tup [''a'', ''c''], 1), (Tup [''a'', ''b''], 1)]
        [(Tup [''a'', ''c''], 1), (Tup [''a'', ''b''], 1)] (1 / 4) = Inr association_rules \<and>
      generate_association_rules
        [(Item ''b'', 1), (Item ''a'', 2), (Item ''c'', 1), (Tup [''a'', ''b''], 1), (Tup [''a'', ''c''], 1)]
        [(Tup [''a'', ''b''], 1), (Tup [''a'', ''c''], 1)] (1 / 4) = Inr association_rules' \<and>
      set association_rules' = set association_rules)"
proof -
  have perm: "mset [[''b'', ''a''], [''c'', ''a'']] = mset [[''c'', ''a''], [''b'', ''a'']]"
    by (simp add: add_mset_commute)
  from basket_order_irrelevant [OF perm two_rows_counter two_rows_counter_permuted
      two_rows_apriori two_rows_apriori_permuted, of "[]" 0 "1 / 4"] perm
  show ?thesis by blast
qed

text \<open>
  C10. Every count in the table of the level-1 counter, in every table of the generator
  (for any baskets, \<open>l_1\<close> and \<open>k\<close>) and in the two tables the driver returns is at least 1;
  every denominator the rule miner looks up is at least 1, so no division raises
  \<open>ZeroDivisionError\<close>.
\<close>

theorem counts_positive:
  assumes "generate_all_single_candidates rows = (c_1, all_baskets)"
    and "apriori all_baskets support c_1 = (af, ag)"
  shows "(\<forall>(x, n)\<in>set c_1. 1 \<le> n) \<and>
     (\<forall>(x, n)\<in>set (generate_next_candidates baskets l_1 k). 1 \<le> n) \<and>
     (\<forall>(x, n)\<in>set af. 1 \<le> n) \<and> (\<forall>(x, n)\<in>set ag. 1 \<le> n) \<and>
     (\<forall>X n i A. (X, n) \<in> set ag \<and> 1 \<le> i \<and> i < length (key_elems X) \<and>
         A \<in> set (combinations (key_elems X) i) \<longrightarrow>
         (\<exists>m. lookup af (antecedent_key A) = Inr m \<and> 1 \<le> m \<and>
              rule_conf af A n = Inr (of_int n / of_int m))) \<and>
     generate_association_rules af ag conf_threshold \<noteq> Inl ZeroDivisionError"
proof -
  note pos = pipeline_counts_pos [OF assms]
  have den: "\<exists>m. lookup af (antecedent_key A) = Inr m \<and> 1 \<le> m \<and>
              rule_conf af A n = Inr (of_int n / of_int m)"
    if "(X, n) \<in> set ag" "1 \<le> i" "i < length (key_elems X)"
      "A \<in> set (combinations (key_elems X) i)" for X n i A
  proof -
    from pipeline_conf [OF assms that] obtain m where
      "lookup af (antecedent_key A) = Inr m" "1 \<le> n" "n \<le> m"
      "rule_conf af A n = Inr (of_int n / of_int m)"
      by blast
    then show ?thesis by (intro exI [of _ m]) simp
  qed
  have "generate_association_rules af ag conf_threshold \<noteq> Inl ZeroDivisionError"
    by (simp add: pipeline_rules [OF assms])
  with pos den generate_next_candidates_pos show ?thesis
    by blast
qed

theorem counts_positive_witness:
  "(\<exists>m. lookup [(Item ''a'', 3), (Item ''b'', 2), (Tup [''a'', ''b''], 2)] (antecedent_key [''a'']) = Inr m
        \<and> 1 \<le> m \<and>
        rule_conf [(Item ''a'', 3), (Item ''b'', 2), (Tup [''a'', ''b''], 2)] [''a''] 2
          = Inr (of_int 2 / of_int m)) \<and>
   generate_association_rules [(Item ''a'', 3), (Item ''b'', 2), (Tup [''a'', ''b''], 2)]
        [(Tup [''a'', ''b''], 2)] (1 / 2) \<noteq> Inl ZeroDivisionError \<and>
   (1::int) \<le> 3"
proof -
  let ?af = "[(Item ''a'', 3), (Item ''b'', 2), (Tup [''a'', ''b''], 2)]"
  let ?ag = "[(Tup [''a'', ''b''], 2 :: int)]"
  note t = counts_positive [OF scenario_counter scenario_apriori, of "[]" "[]" 0 "1 / 2"]
  from t have c1: "\<forall>(x, n)\<in>set [(Item ''a'', 3), (Item ''b'', 2), (Item ''c'', 1 :: int)]. 1 \<le> n"
    by blast
  from t have den: "\<And>X n i A. (X, n) \<in> set ?ag \<and> 1 \<le> i \<and> i < length (key_elems X) \<and>
         A \<in> set (combinations (key_elems X) i) \<Longrightarrow>
         (\<exists>m. lookup ?af (antecedent_key A) = Inr m \<and> 1 \<le> m \<and>
              rule_conf ?af A n = Inr (of_int n / of_int m))"
    by blast
  from t have nz: "generate_association_rules ?af ?ag (1 / 2) \<noteq> Inl ZeroDivisionError"
    by blast
  have "\<exists>m. lookup ?af (antecedent_key [''a'']) = Inr m \<and> 1 \<le> m \<and>
              rule_conf ?af [''a''] 2 = Inr (of_int 2 / of_int m)"
    by (rule den [of "Tup [''a'', ''b'']" 2 1]) (simp add: numeral_2_eq_2)
  moreover from c1 have "(1::int) \<le> 3" by simp
  ultimately show ?thesis using nz by blast
qed

end
